theory Spec2Isabelle
  imports Main "HOL-Library.Product_Lexorder" "HOL-Library.List_Lexorder" "HOL-Library.Char_ord"
begin

section \<open>Cost estimator and contraction reducer\<close>

text \<open>
  Index labels are kept abstract (type \<open>'a\<close>); an operand descriptor is the set of its
  labels.  The size dictionary \<open>ind_dict\<close> is taken as a total function: the caller builds
  it with one entry for every label of every operand, and the search only ever looks up labels
  of the operands.  Python integers are unbounded, hence \<open>int\<close>.
\<close>

text \<open>\<open>_compute_size_by_dict\<close> on a set of labels: the product of the sizes, 1 when empty.\<close>

definition compute_size_by_dict :: "'a set \<Rightarrow> ('a \<Rightarrow> int) \<Rightarrow> int" where
  "compute_size_by_dict inds ind_dict = (\<Prod>i\<in>inds. ind_dict i)"

text \<open>The same function when the iterable is a string of labels (repetitions count).\<close>

definition compute_size_by_dict_str :: "'a list \<Rightarrow> ('a \<Rightarrow> int) \<Rightarrow> int" where
  "compute_size_by_dict_str inds ind_dict = fold (\<lambda>i ret. ret * ind_dict i) inds 1"

text \<open>
  The loop body of \<open>_find_contraction\<close>; the state is
  \<open>(idx_contract, idx_remain, remaining)\<close>.  Positions are Python integers; the loop index
  \<open>ind\<close> is tested with \<open>ind in positions\<close>.
\<close>

definition find_contraction_step ::
  "int list \<Rightarrow> nat \<times> 'a set \<Rightarrow> 'a set \<times> 'a set \<times> 'a set list \<Rightarrow> 'a set \<times> 'a set \<times> 'a set list" where
  "find_contraction_step positions iv st =
     (case iv of (ind, val) \<Rightarrow> case st of (idx_contract, idx_remain, remaining) \<Rightarrow>
        if int ind \<in> set positions
        then (idx_contract \<union> val, idx_remain, remaining)
        else (idx_contract, idx_remain \<union> val, remaining @ [val]))"

text \<open>\<open>_find_contraction\<close>: returns \<open>(new_result, remaining, idx_removed, idx_contract)\<close>.\<close>

definition find_contraction ::
  "int list \<Rightarrow> 'a set list \<Rightarrow> 'a set \<Rightarrow> 'a set \<times> 'a set list \<times> 'a set \<times> 'a set" where
  "find_contraction positions input_sets output_set =
     (case fold (find_contraction_step positions) (enumerate 0 input_sets) ({}, output_set, [])
      of (idx_contract, idx_remain, remaining) \<Rightarrow>
        let new_result = idx_remain \<inter> idx_contract;
            idx_removed = idx_contract - new_result
        in (new_result, remaining @ [new_result], idx_removed, idx_contract))"

section \<open>The two path searches\<close>

text \<open>
  Exceptions of the Python code that the model keeps as values.
\<close>

datatype error = UnboundLocalError | KeyError | TypeError | IndexError

text \<open>
  \<open>zip(*np.triu_indices(n, 1))\<close>: the pairs \<open>(i, j)\<close> with \<open>i < j < n\<close> in row-major order.
  A position tuple is a list of Python integers, so that the pair \<open>(i, j)\<close> and the fallback
  tuple \<open>tuple(range(n))\<close> have one type, and tuples compare lexicographically.
\<close>

definition triu_indices :: "nat \<Rightarrow> int list list" where
  "triu_indices n = concat (map (\<lambda>i. map (\<lambda>j. [int i, int j]) [Suc i..<n]) [0..<n])"

text \<open>
  The innermost loop body of \<open>_path_optimal\<close> for one candidate \<open>cand\<close> (the source's \<open>curr\<close>) and one pair
  \<open>con\<close>: the list of entries appended to \<open>new\<close> (none on \<open>continue\<close>).
  \<open>len(idx_removed) > 0\<close> is non-emptiness of the set.
\<close>

definition optimal_try ::
  "'a set \<Rightarrow> ('a \<Rightarrow> int) \<Rightarrow> int \<Rightarrow> int \<times> int list list \<times> 'a set list \<Rightarrow> int list
    \<Rightarrow> (int \<times> int list list \<times> 'a set list) list" where
  "optimal_try output_set ind_dict memory cand con =
     (case cand of (cost, positions, remaining) \<Rightarrow>
      case find_contraction con remaining output_set of
        (new_result, new_input_sets, idx_removed, idx_contract) \<Rightarrow>
          if compute_size_by_dict new_result ind_dict > memory then []
          else
            let new_cost = compute_size_by_dict idx_contract ind_dict;
                new_cost = (if idx_removed \<noteq> {} then new_cost * 2 else new_cost);
                new_cost = new_cost + cost;
                new_pos = positions @ [con]
            in [(new_cost, new_pos, new_input_sets)])"

text \<open>One pass of the outer loop of \<open>_path_optimal\<close>: the list \<open>new\<close> built from \<open>current\<close>.\<close>

definition optimal_iteration ::
  "'a set \<Rightarrow> ('a \<Rightarrow> int) \<Rightarrow> int \<Rightarrow> nat \<Rightarrow> (int \<times> int list list \<times> 'a set list) list \<Rightarrow> nat
    \<Rightarrow> (int \<times> int list list \<times> 'a set list) list" where
  "optimal_iteration output_set ind_dict memory n current iteration =
     (let comb_iter = triu_indices (n - iteration)
      in concat (map (\<lambda>cand. concat (map (optimal_try output_set ind_dict memory cand) comb_iter))
                     current))"

text \<open>
  The outer loop after \<open>k\<close> passes: the state is \<open>(current, new)\<close>, where \<open>new\<close> is
  unbound (\<open>None\<close>) until the first pass.
\<close>

definition optimal_loop ::
  "'a set \<Rightarrow> ('a \<Rightarrow> int) \<Rightarrow> int \<Rightarrow> 'a set list \<Rightarrow> nat
    \<Rightarrow> (int \<times> int list list \<times> 'a set list) list \<times> (int \<times> int list list \<times> 'a set list) list option" where
  "optimal_loop output_set ind_dict memory input_sets k =
     fold (\<lambda>iteration st.
             let new = optimal_iteration output_set ind_dict memory (length input_sets) (fst st) iteration
             in (new, Some new))
          [0..<k] ([(0, [], input_sets)], None)"

text \<open>
  \<open>_path_optimal\<close>.  With fewer than two operands the loop body never runs and reading
  \<open>new\<close> raises.  \<open>new.sort()\<close> compares the tuples \<open>(cost, positions, remaining)\<close>
  lexicographically; the candidates have pairwise different \<open>positions\<close> (lemma
  \<open>optimal_loop_distinct\<close> below), so the comparison is decided by \<open>(cost, positions)\<close>,
  which is the sort key used here.
\<close>

definition path_optimal ::
  "'a set list \<Rightarrow> 'a set \<Rightarrow> ('a \<Rightarrow> int) \<Rightarrow> int \<Rightarrow> error + int list list" where
  "path_optimal input_sets output_set ind_dict memory =
     (case snd (optimal_loop output_set ind_dict memory input_sets (length input_sets - 1)) of
        None \<Rightarrow> Inl UnboundLocalError
      | Some new \<Rightarrow>
          if length new = 0 then Inr [map int [0..<length input_sets]]
          else Inr (fst (snd (hd (sort_key (\<lambda>c. (fst c, fst (snd c))) new)))))"

text \<open>
  The inner loop body of \<open>_path_opportunistic\<close> for one pair: the entries appended to
  \<open>iteration_results\<close>.
\<close>

definition opportunistic_try ::
  "'a set \<Rightarrow> ('a \<Rightarrow> int) \<Rightarrow> int \<Rightarrow> 'a set list \<Rightarrow> int list
    \<Rightarrow> ((int \<times> int) \<times> int list \<times> 'a set list) list" where
  "opportunistic_try output_set ind_dict memory input_sets positions =
     (case find_contraction positions input_sets output_set of
        (idx_result, new_input_sets, idx_removed, idx_contract) \<Rightarrow>
          if compute_size_by_dict idx_result ind_dict > memory then []
          else
            let removed_size = compute_size_by_dict idx_removed ind_dict;
                cost = compute_size_by_dict idx_contract ind_dict;
                sort = (- removed_size, cost)
            in [(sort, positions, new_input_sets)])"

definition opportunistic_results ::
  "'a set \<Rightarrow> ('a \<Rightarrow> int) \<Rightarrow> int \<Rightarrow> 'a set list \<Rightarrow> ((int \<times> int) \<times> int list \<times> 'a set list) list" where
  "opportunistic_results output_set ind_dict memory input_sets =
     concat (map (opportunistic_try output_set ind_dict memory input_sets)
                 (triu_indices (length input_sets)))"

text \<open>
  The loop of \<open>_path_opportunistic\<close>; the first numeric argument counts the passes still to
  run, \<open>break\<close> returns at once.  The entries are sorted as lists
  \<open>[sort, positions, new_input_sets]\<close>; the positions differ, so the key is
  \<open>(sort, positions)\<close>.
\<close>

fun opportunistic_loop ::
  "'a set \<Rightarrow> ('a \<Rightarrow> int) \<Rightarrow> int \<Rightarrow> nat \<Rightarrow> 'a set list \<Rightarrow> int list list \<Rightarrow> int list list" where
  "opportunistic_loop output_set ind_dict memory 0 input_sets path = path"
| "opportunistic_loop output_set ind_dict memory (Suc k) input_sets path =
     (let iteration_results = opportunistic_results output_set ind_dict memory input_sets
      in if length iteration_results = 0 then path @ [map int [0..<length input_sets]]
         else
           let best = hd (sort_key (\<lambda>r. (fst r, fst (snd r))) iteration_results)
           in opportunistic_loop output_set ind_dict memory k (snd (snd best))
                (path @ [fst (snd best)]))"

definition path_opportunistic ::
  "'a set list \<Rightarrow> 'a set \<Rightarrow> ('a \<Rightarrow> int) \<Rightarrow> int \<Rightarrow> int list list" where
  "path_opportunistic input_sets output_set ind_dict memory =
     opportunistic_loop output_set ind_dict memory (length input_sets - 1) input_sets []"

section \<open>Replaying a path\<close>

text \<open>
  The vocabulary of the properties: what one step of a path does to the remaining sequence,
  and the cost, feasibility and final state of a whole path, each step being applied to the
  sequence left by the steps before it.
\<close>

definition step_result :: "'a set \<Rightarrow> 'a set list \<Rightarrow> int list \<Rightarrow> 'a set" where
  "step_result output_set remaining con = fst (find_contraction con remaining output_set)"

definition step_remaining :: "'a set \<Rightarrow> 'a set list \<Rightarrow> int list \<Rightarrow> 'a set list" where
  "step_remaining output_set remaining con = fst (snd (find_contraction con remaining output_set))"

definition step_removed :: "'a set \<Rightarrow> 'a set list \<Rightarrow> int list \<Rightarrow> 'a set" where
  "step_removed output_set remaining con = fst (snd (snd (find_contraction con remaining output_set)))"

definition step_contract :: "'a set \<Rightarrow> 'a set list \<Rightarrow> int list \<Rightarrow> 'a set" where
  "step_contract output_set remaining con = snd (snd (snd (find_contraction con remaining output_set)))"

text \<open>The cost of one step: the size of the contracted labels, doubled when a label is removed.\<close>

definition step_cost :: "'a set \<Rightarrow> ('a \<Rightarrow> int) \<Rightarrow> 'a set list \<Rightarrow> int list \<Rightarrow> int" where
  "step_cost output_set ind_dict remaining con =
     (if step_removed output_set remaining con \<noteq> {}
      then compute_size_by_dict (step_contract output_set remaining con) ind_dict * 2
      else compute_size_by_dict (step_contract output_set remaining con) ind_dict)"

text \<open>A step is memory-feasible when its surviving labels fit the limit.\<close>

definition step_feasible :: "'a set \<Rightarrow> ('a \<Rightarrow> int) \<Rightarrow> int \<Rightarrow> 'a set list \<Rightarrow> int list \<Rightarrow> bool" where
  "step_feasible output_set ind_dict memory remaining con =
     (compute_size_by_dict (step_result output_set remaining con) ind_dict \<le> memory)"

fun path_remaining :: "'a set \<Rightarrow> 'a set list \<Rightarrow> int list list \<Rightarrow> 'a set list" where
  "path_remaining output_set remaining [] = remaining"
| "path_remaining output_set remaining (con # path) =
     path_remaining output_set (step_remaining output_set remaining con) path"

fun path_cost :: "'a set \<Rightarrow> ('a \<Rightarrow> int) \<Rightarrow> 'a set list \<Rightarrow> int list list \<Rightarrow> int" where
  "path_cost output_set ind_dict remaining [] = 0"
| "path_cost output_set ind_dict remaining (con # path) =
     step_cost output_set ind_dict remaining con +
     path_cost output_set ind_dict (step_remaining output_set remaining con) path"

text \<open>
  A memory-feasible pairwise path: every step is a pair \<open>i < j\<close> of positions of the sequence
  it is applied to, and is memory-feasible.
\<close>

fun pairwise_feasible ::
  "'a set \<Rightarrow> ('a \<Rightarrow> int) \<Rightarrow> int \<Rightarrow> 'a set list \<Rightarrow> int list list \<Rightarrow> bool" where
  "pairwise_feasible output_set ind_dict memory remaining [] = True"
| "pairwise_feasible output_set ind_dict memory remaining (con # path) =
     (con \<in> set (triu_indices (length remaining)) \<and>
      step_feasible output_set ind_dict memory remaining con \<and>
      pairwise_feasible output_set ind_dict memory (step_remaining output_set remaining con) path)"

text \<open>A path is complete when it reduces the sequence to a single descriptor.\<close>

definition path_complete :: "'a set \<Rightarrow> 'a set list \<Rightarrow> int list list \<Rightarrow> bool" where
  "path_complete output_set input_sets path =
     (length (path_remaining output_set input_sets path) = 1)"

text \<open>
  Every step either fits the memory limit or is the fallback tuple \<open>tuple(range(n))\<close> that
  contracts the whole of the sequence it is applied to.
\<close>

fun steps_within_memory ::
  "'a set \<Rightarrow> ('a \<Rightarrow> int) \<Rightarrow> int \<Rightarrow> 'a set list \<Rightarrow> int list list \<Rightarrow> bool" where
  "steps_within_memory output_set ind_dict memory remaining [] = True"
| "steps_within_memory output_set ind_dict memory remaining (con # path) =
     ((step_feasible output_set ind_dict memory remaining con \<or>
       con = map int [0..<length remaining]) \<and>
      steps_within_memory output_set ind_dict memory (step_remaining output_set remaining con) path)"

text \<open>The sort tuple of the opportunistic search for one pair: \<open>(-removed_size, cost)\<close>.\<close>

definition step_key :: "'a set \<Rightarrow> ('a \<Rightarrow> int) \<Rightarrow> 'a set list \<Rightarrow> int list \<Rightarrow> int \<times> int" where
  "step_key output_set ind_dict remaining con =
     (- compute_size_by_dict (step_removed output_set remaining con) ind_dict,
      compute_size_by_dict (step_contract output_set remaining con) ind_dict)"

text \<open>
  Every step is a best choice for the sequence it is applied to: whenever that sequence has a
  memory-feasible pair, the step is a memory-feasible pair whose sort tuple is no larger
  (lexicographically) than that of any memory-feasible pair.
\<close>

fun greedy_choices ::
  "'a set \<Rightarrow> ('a \<Rightarrow> int) \<Rightarrow> int \<Rightarrow> 'a set list \<Rightarrow> int list list \<Rightarrow> bool" where
  "greedy_choices output_set ind_dict memory remaining [] = True"
| "greedy_choices output_set ind_dict memory remaining (con # path) =
     ((\<forall>q\<in>set (triu_indices (length remaining)).
         step_feasible output_set ind_dict memory remaining q \<longrightarrow>
           con \<in> set (triu_indices (length remaining)) \<and>
           step_feasible output_set ind_dict memory remaining con \<and>
           step_key output_set ind_dict remaining con \<le> step_key output_set ind_dict remaining q) \<and>
      greedy_choices output_set ind_dict memory (step_remaining output_set remaining con) path)"

section \<open>Path selection and plan building in \<open>contract\<close>\<close>

text \<open>
  From here on labels are characters and operand terms are strings, as in \<open>contract\<close>.
  An entry of a path is whatever the caller or the code put there: a tuple (or list) of
  integers, or a bare integer, as in the literal \<open>[(0)]\<close>, which is the list \<open>[0]\<close>.
\<close>

datatype step = Scalar int | Group "int list"

text \<open>The \<open>path\<close> keyword: a \<open>str\<close> names a strategy, any other value is used as the path.\<close>

datatype path_arg = PathName string | PathValue "step list"

text \<open>
  The \<open>if\<close>/\<open>elif\<close> chain that computes \<open>path\<close> (the block under the comment
  \<open># Compute path\<close>).  \<open>memory_arg\<close> and \<open>out_size\<close> are the values the code holds
  when it reaches the chain.
\<close>

definition compute_path ::
  "path_arg \<Rightarrow> string list \<Rightarrow> char set list \<Rightarrow> char set \<Rightarrow> (char \<Rightarrow> int) \<Rightarrow> int \<Rightarrow> int
    \<Rightarrow> error + step list" where
  "compute_path path_arg input_list input_sets output_set dimension_dict memory_arg out_size =
     (case path_arg of
        PathValue p \<Rightarrow> Inr p
      | PathName name \<Rightarrow>
          if length input_list = 1 then Inr [Scalar 0]
          else if length input_list = 2 then Inr [Group [0, 1]]
          else if name = ''opportunistic'' then
            (let memory_arg = min memory_arg out_size
             in Inr (map Group (path_opportunistic input_sets output_set dimension_dict memory_arg)))
          else if name = ''optimal'' then
            (case path_optimal input_sets output_set dimension_dict memory_arg of
               Inl e \<Rightarrow> Inl e
             | Inr p \<Rightarrow> Inr (map Group p))
          else Inl KeyError)"

text \<open>\<open>xs.pop(x)\<close> of a Python list: negative indices count from the end.\<close>

definition pop :: "'b list \<Rightarrow> int \<Rightarrow> error + ('b \<times> 'b list)" where
  "pop xs x =
     (let i = (if x < 0 then x + int (length xs) else x)
      in if i < 0 \<or> int (length xs) \<le> i then Inl IndexError
         else Inr (xs ! nat i, take (nat i) xs @ drop (Suc (nat i)) xs))"

text \<open>
  The loop \<open>for x in contract_inds: tmp_inputs.append(input_list.pop(x))\<close>; returns
  \<open>(tmp_inputs, input_list)\<close>.
\<close>

fun pop_all :: "'b list \<Rightarrow> int list \<Rightarrow> 'b list \<Rightarrow> error + ('b list \<times> 'b list)" where
  "pop_all input_list [] tmp_inputs = Inr (tmp_inputs, input_list)"
| "pop_all input_list (x # xs) tmp_inputs =
     (case pop input_list x of
        Inl e \<Rightarrow> Inl e
      | Inr (v, rest) \<Rightarrow> pop_all rest xs (tmp_inputs @ [v]))"

text \<open>\<open>sep.join(xs)\<close>.\<close>

fun join :: "string \<Rightarrow> string list \<Rightarrow> string" where
  "join sep [] = []"
| "join sep [x] = x"
| "join sep (x # y # ys) = x @ sep @ join sep (y # ys)"

text \<open>
  One entry of \<open>contraction_list\<close>, the tuple
  \<open>(contract_inds, False, einsum_str, input_list[:])\<close>, field by field.
\<close>

record contraction =
  c_inds :: "int list"
  c_gemm :: bool
  c_einsum_str :: string
  c_remaining :: "string list"

text \<open>
  The result labels of a step that is not the last: the surviving labels sorted as the pairs
  \<open>(dimension_dict[ind], ind)\<close>.
\<close>

definition sorted_result :: "(char \<Rightarrow> int) \<Rightarrow> char set \<Rightarrow> string" where
  "sorted_result dimension_dict out_inds =
     map snd (sorted_list_of_set ((\<lambda>ind. (dimension_dict ind, ind)) ` out_inds))"

text \<open>
  The body of the loop that builds \<open>contraction_list\<close>, for entry number \<open>cnum\<close> of a path
  of \<open>path_len\<close> entries; the state is \<open>(input_sets, input_list, contraction_list)\<close>.
  \<open>list(contract_inds)\<close> raises on an integer, \<open>pop\<close> on an index out of range.
\<close>

definition materialize_step ::
  "string \<Rightarrow> (char \<Rightarrow> int) \<Rightarrow> nat \<Rightarrow> nat \<times> step
    \<Rightarrow> char set list \<times> string list \<times> contraction list
    \<Rightarrow> error + (char set list \<times> string list \<times> contraction list)" where
  "materialize_step output_subscript dimension_dict path_len cs st =
     (case cs of (cnum, entry) \<Rightarrow>
      case st of (input_sets, input_list, contraction_list) \<Rightarrow>
      case entry of
        Scalar _ \<Rightarrow> Inl TypeError
      | Group ps \<Rightarrow>
          let contract_inds = rev (sort ps)
          in case find_contraction contract_inds input_sets (set output_subscript) of
               (out_inds, new_input_sets, idx_removed, idx_contract) \<Rightarrow>
                 case pop_all input_list contract_inds [] of
                   Inl e \<Rightarrow> Inl e
                 | Inr (tmp_inputs, popped) \<Rightarrow>
                     let idx_result =
                           (if int cnum - int path_len = - 1 then output_subscript
                            else sorted_result dimension_dict out_inds);
                         new_input_list = popped @ [idx_result];
                         einsum_str = join '','' tmp_inputs @ ''->'' @ idx_result;
                         contraction = \<lparr>c_inds = contract_inds, c_gemm = False,
                           c_einsum_str = einsum_str, c_remaining = new_input_list\<rparr>
                     in Inr (new_input_sets, new_input_list, contraction_list @ [contraction]))"

fun materialize_loop ::
  "string \<Rightarrow> (char \<Rightarrow> int) \<Rightarrow> nat \<Rightarrow> (nat \<times> step) list
    \<Rightarrow> char set list \<times> string list \<times> contraction list
    \<Rightarrow> error + (char set list \<times> string list \<times> contraction list)" where
  "materialize_loop output_subscript dimension_dict path_len [] st = Inr st"
| "materialize_loop output_subscript dimension_dict path_len (cs # rest) st =
     (case materialize_step output_subscript dimension_dict path_len cs st of
        Inl e \<Rightarrow> Inl e
      | Inr st' \<Rightarrow> materialize_loop output_subscript dimension_dict path_len rest st')"

text \<open>
  The whole loop over \<open>enumerate(path)\<close>, from the state \<open>contract\<close> has before it; the
  result is the final \<open>(input_sets, input_list, contraction_list)\<close>.
\<close>

definition materialize ::
  "step list \<Rightarrow> string list \<Rightarrow> string \<Rightarrow> (char \<Rightarrow> int)
    \<Rightarrow> error + (char set list \<times> string list \<times> contraction list)" where
  "materialize path input_list output_subscript dimension_dict =
     materialize_loop output_subscript dimension_dict (length path) (enumerate 0 path)
       (map set input_list, input_list, [])"

text \<open>
  The lines that compute \<open>out_size\<close>: the sizes of the input terms and of the output term
  are collected in \<open>size_list\<close>, and \<open>out_size\<close> is the largest.
\<close>

definition compute_out_size :: "string list \<Rightarrow> string \<Rightarrow> (char \<Rightarrow> int) \<Rightarrow> int" where
  "compute_out_size input_list output_subscript dimension_dict =
     (let size_list = map (\<lambda>term. compute_size_by_dict_str term dimension_dict)
                          (input_list @ [output_subscript])
      in Max (set size_list))"

text \<open>
  \<open>contract\<close> from the point where the subscripts are parsed and \<open>dimension_dict\<close> is
  built, up to the finished \<open>contraction_list\<close>.  The keys of \<open>dimension_dict\<close> are exactly
  the labels of the input terms, so computing the size of the output term raises
  \<open>KeyError\<close> when the output has a label that no input has; for the labels that are keys the
  dictionary is the function \<open>dimension_dict\<close>.  \<open>memory\<close> is the keyword argument, absent
  (\<open>None\<close>) or given.  The result is the path and the final state of the plan-building loop.
\<close>

definition contract_plan ::
  "path_arg \<Rightarrow> string list \<Rightarrow> string \<Rightarrow> (char \<Rightarrow> int) \<Rightarrow> int option
    \<Rightarrow> error + (step list \<times> char set list \<times> string list \<times> contraction list)" where
  "contract_plan path_arg input_list output_subscript dimension_dict memory =
     (let input_sets = map set input_list;
          output_set = set output_subscript
      in if \<not> output_set \<subseteq> \<Union>(set input_sets) then Inl KeyError
         else
           let out_size = compute_out_size input_list output_subscript dimension_dict;
               memory_arg = (case memory of None \<Rightarrow> out_size | Some m \<Rightarrow> m)
           in case compute_path path_arg input_list input_sets output_set dimension_dict
                     memory_arg out_size of
                Inl e \<Rightarrow> Inl e
              | Inr path \<Rightarrow>
                  (case materialize path input_list output_subscript dimension_dict of
                     Inl e \<Rightarrow> Inl e
                   | Inr st \<Rightarrow> Inr (path, st)))"

section \<open>Well-formed paths\<close>


text \<open>
  A path whose every entry is a tuple of distinct positions of the operand list as it stands
  at that entry, for a list of \<open>n\<close> operands at the start; an entry of \<open>k\<close> positions
  replaces \<open>k\<close> operands by one.  Nothing is asked of the number of entries or of what
  remains at the end.
\<close>

fun valid_path :: "nat \<Rightarrow> step list \<Rightarrow> bool" where
  "valid_path n [] = True"
| "valid_path n (Scalar _ # rest) = False"
| "valid_path n (Group ps # rest) =
     (distinct ps \<and> list_all (\<lambda>x. 0 \<le> x \<and> x < int n) ps \<and> valid_path (n - length ps + 1) rest)"

text \<open>
  The shape of a path that a search returns for \<open>n\<close> operands: pairs \<open>i < j\<close> of positions,
  each applied to one operand fewer, down to one operand, or ended early by the tuple of all
  positions.
\<close>

fun search_steps :: "nat \<Rightarrow> int list list \<Rightarrow> bool" where
  "search_steps n [] = (n = 1)"
| "search_steps n (con # path) =
     (con \<in> set (triu_indices n) \<and> search_steps (n - 1) path \<or>
      con = map int [0..<n] \<and> path = [] \<and> 2 \<le> n)"

text \<open>Every step leaves surviving labels of size at most \<open>bound\<close>, the fallback included.\<close>

fun steps_bounded ::
  "'a set \<Rightarrow> ('a \<Rightarrow> int) \<Rightarrow> int \<Rightarrow> 'a set list \<Rightarrow> int list list \<Rightarrow> bool" where
  "steps_bounded output_set ind_dict bound remaining [] = True"
| "steps_bounded output_set ind_dict bound remaining (con # path) =
     (compute_size_by_dict (step_result output_set remaining con) ind_dict \<le> bound \<and>
      steps_bounded output_set ind_dict bound (step_remaining output_set remaining con) path)"

section \<open>Facts about the reducer\<close>

lemma find_contraction_step_pair:
  "find_contraction_step P (i, v) (c, r, rem) =
     (if int i \<in> set P then (c \<union> v, r, rem) else (c, r \<union> v, rem @ [v]))"
  by (simp add: find_contraction_step_def)

lemma find_contraction_fold:
  "fold (find_contraction_step P) (enumerate k xs) (c, r, rem) =
    (c \<union> \<Union>(set (map snd (filter (\<lambda>iv. int (fst iv) \<in> set P) (enumerate k xs)))),
     r \<union> \<Union>(set (map snd (filter (\<lambda>iv. int (fst iv) \<notin> set P) (enumerate k xs)))),
     rem @ map snd (filter (\<lambda>iv. int (fst iv) \<notin> set P) (enumerate k xs)))"
proof (induction xs arbitrary: k c r rem)
  case Nil
  then show ?case by simp
next
  case (Cons x xs)
  show ?case
    by (simp add: find_contraction_step_pair Cons.IH Un_assoc)
qed

lemma filter_enumerate_nths:
  "map snd (filter (\<lambda>iv. Q (fst iv)) (enumerate k xs)) = nths xs {j. Q (j + k)}"
proof (induction xs arbitrary: k)
  case Nil
  then show ?case by simp
next
  case (Cons x xs)
  show ?case by (simp add: nths_Cons Cons.IH)
qed

lemma selected_nths:
  "map snd (filter (\<lambda>iv. int (fst iv) \<in> set P) (enumerate 0 xs)) = nths xs {i. int i \<in> set P}"
  using filter_enumerate_nths [of "\<lambda>i. int i \<in> set P" 0 xs] by simp

lemma unselected_nths:
  "map snd (filter (\<lambda>iv. int (fst iv) \<notin> set P) (enumerate 0 xs)) = nths xs {i. int i \<notin> set P}"
  using filter_enumerate_nths [of "\<lambda>i. int i \<notin> set P" 0 xs] by simp

text \<open>The reducer in closed form: selected and non-selected descriptors as sublists.\<close>

lemma find_contraction_eq:
  "find_contraction positions input_sets output_set =
     (((output_set \<union> \<Union>(set (nths input_sets {i. int i \<notin> set positions})))
         \<inter> \<Union>(set (nths input_sets {i. int i \<in> set positions}))),
      nths input_sets {i. int i \<notin> set positions} @
        [(output_set \<union> \<Union>(set (nths input_sets {i. int i \<notin> set positions})))
         \<inter> \<Union>(set (nths input_sets {i. int i \<in> set positions}))],
      \<Union>(set (nths input_sets {i. int i \<in> set positions})) -
        ((output_set \<union> \<Union>(set (nths input_sets {i. int i \<notin> set positions})))
         \<inter> \<Union>(set (nths input_sets {i. int i \<in> set positions}))),
      \<Union>(set (nths input_sets {i. int i \<in> set positions})))"
  unfolding find_contraction_def find_contraction_fold selected_nths unselected_nths
  by (simp add: Let_def)

section \<open>Facts about pairs, replay and sorting\<close>

lemma triu_indices_iff:
  "con \<in> set (triu_indices n) \<longleftrightarrow> (\<exists>i j. i < j \<and> j < n \<and> con = [int i, int j])"
proof
  assume "con \<in> set (triu_indices n)"
  then show "\<exists>i j. i < j \<and> j < n \<and> con = [int i, int j]"
    by (auto simp: triu_indices_def)
next
  assume "\<exists>i j. i < j \<and> j < n \<and> con = [int i, int j]"
  then obtain i j where ij: "i < j" "j < n" "con = [int i, int j]" by blast
  then have "i \<in> set [0..<n]" and "con \<in> set (map (\<lambda>j. [int i, int j]) [Suc i..<n])"
    by auto
  then show "con \<in> set (triu_indices n)"
    unfolding triu_indices_def set_concat by (metis (no_types, lifting) UN_I image_eqI list.set_map)
qed

lemma triu_rows_inj:
  assumes "x < n" "y < n"
    and "map (\<lambda>j. [int x, int j]) [Suc x..<n] = map (\<lambda>j. [int y, int j]) [Suc y..<n]"
  shows "x = y"
proof -
  from assms(3) have "length [Suc x..<n] = length [Suc y..<n]"
    by (metis length_map)
  with assms(1,2) show ?thesis by simp
qed

lemma distinct_triu_indices: "distinct (triu_indices n)"
  unfolding triu_indices_def
proof (rule distinct_concat)
  show "distinct (map (\<lambda>i. map (\<lambda>j. [int i, int j]) [Suc i..<n]) [0..<n])"
    by (auto simp: distinct_map inj_on_def dest: triu_rows_inj)
next
  fix ys assume "ys \<in> set (map (\<lambda>i. map (\<lambda>j. [int i, int j]) [Suc i..<n]) [0..<n])"
  then show "distinct ys" by (auto simp: distinct_map inj_on_def)
next
  fix ys zs
  assume "ys \<in> set (map (\<lambda>i. map (\<lambda>j. [int i, int j]) [Suc i..<n]) [0..<n])"
    "zs \<in> set (map (\<lambda>i. map (\<lambda>j. [int i, int j]) [Suc i..<n]) [0..<n])" "ys \<noteq> zs"
  then show "set ys \<inter> set zs = {}" by auto
qed

lemma step_remaining_eq:
  "step_remaining output_set remaining con =
     nths remaining {i. int i \<notin> set con} @ [step_result output_set remaining con]"
  by (simp add: step_remaining_def step_result_def find_contraction_eq)

lemma card_unselected_pair:
  assumes "i < j" "j < n"
  shows "card {k. k < n \<and> int k \<notin> set [int i, int j]} = n - 2"
proof -
  have "{k. k < n \<and> int k \<notin> set [int i, int j]} = {..<n} - {i, j}" by auto
  moreover have "card ({..<n} - {i, j}) = n - 2"
    using assms by (simp add: card_Diff_subset)
  ultimately show ?thesis by simp
qed

lemma length_step_remaining:
  assumes "con \<in> set (triu_indices (length remaining))"
  shows "length (step_remaining output_set remaining con) = length remaining - 1"
proof -
  from assms obtain i j where ij: "i < j" "j < length remaining" "con = [int i, int j]"
    by (auto simp: triu_indices_iff)
  show ?thesis
    unfolding step_remaining_eq length_append length_nths ij(3)
    using card_unselected_pair [OF ij(1) ij(2)] ij by simp
qed

lemma path_remaining_snoc:
  "path_remaining output_set remaining (path @ [con]) =
     step_remaining output_set (path_remaining output_set remaining path) con"
  by (induction path arbitrary: remaining) simp_all

lemma path_cost_snoc:
  "path_cost output_set ind_dict remaining (path @ [con]) =
     path_cost output_set ind_dict remaining path +
     step_cost output_set ind_dict (path_remaining output_set remaining path) con"
  by (induction path arbitrary: remaining) simp_all

lemma pairwise_feasible_snoc:
  "pairwise_feasible output_set ind_dict memory remaining (path @ [con]) \<longleftrightarrow>
     pairwise_feasible output_set ind_dict memory remaining path \<and>
     con \<in> set (triu_indices (length (path_remaining output_set remaining path))) \<and>
     step_feasible output_set ind_dict memory (path_remaining output_set remaining path) con"
  by (induction path arbitrary: remaining) auto

lemma pairwise_feasible_length:
  "pairwise_feasible output_set ind_dict memory remaining path \<Longrightarrow>
     length (path_remaining output_set remaining path) + length path = length remaining \<and>
     (path \<noteq> [] \<longrightarrow> length path < length remaining)"
proof (induction path arbitrary: remaining)
  case Nil
  then show ?case by simp
next
  case (Cons con path)
  from Cons.prems have c: "con \<in> set (triu_indices (length remaining))"
    and f: "pairwise_feasible output_set ind_dict memory (step_remaining output_set remaining con) path"
    by simp_all
  from c have l2: "2 \<le> length remaining" by (auto simp: triu_indices_iff)
  have l: "length (step_remaining output_set remaining con) = length remaining - 1"
    using c by (rule length_step_remaining)
  from Cons.IH [OF f] l l2 show ?case by auto
qed

lemma hd_sort_key_min:
  assumes "xs \<noteq> []"
  shows "hd (sort_key f xs) \<in> set xs \<and> (\<forall>x\<in>set xs. f (hd (sort_key f xs)) \<le> f x)"
proof -
  let ?ys = "sort_key f xs"
  have ne: "?ys \<noteq> []" using assms by (metis length_0_conv length_sort)
  have s: "sorted (map f ?ys)" by simp
  have st: "set ?ys = set xs" by simp
  have "hd ?ys \<in> set xs" using hd_in_set [OF ne] unfolding st .
  moreover have "\<forall>x\<in>set ?ys. f (hd ?ys) \<le> f x"
  proof
    fix x assume "x \<in> set ?ys"
    obtain y ys where e: "?ys = y # ys" using ne by (cases ?ys) auto
    with s have "\<forall>z\<in>set ys. f y \<le> f z" by (simp del: sorted_sort_key)
    with e \<open>x \<in> set ?ys\<close> show "f (hd ?ys) \<le> f x" by auto
  qed
  ultimately show ?thesis unfolding st by blast
qed

section \<open>Facts about the optimal search\<close>

lemma optimal_try_eq:
  "optimal_try output_set ind_dict memory (c, p, r) con =
     (if step_feasible output_set ind_dict memory r con
      then [(c + step_cost output_set ind_dict r con, p @ [con], step_remaining output_set r con)]
      else [])"
  by (cases "find_contraction con r output_set")
     (simp add: optimal_try_def step_feasible_def step_cost_def step_result_def
        step_remaining_def step_removed_def step_contract_def Let_def)

lemma optimal_loop_0:
  "optimal_loop output_set ind_dict memory input_sets 0 = ([(0, [], input_sets)], None)"
  by (simp add: optimal_loop_def)

lemma optimal_loop_Suc:
  "optimal_loop output_set ind_dict memory input_sets (Suc k) =
     (optimal_iteration output_set ind_dict memory (length input_sets)
        (fst (optimal_loop output_set ind_dict memory input_sets k)) k,
      Some (optimal_iteration output_set ind_dict memory (length input_sets)
        (fst (optimal_loop output_set ind_dict memory input_sets k)) k))"
  by (simp add: optimal_loop_def Let_def)

lemma optimal_loop_new:
  "snd (optimal_loop output_set ind_dict memory input_sets k) =
     (if k = 0 then None else Some (fst (optimal_loop output_set ind_dict memory input_sets k)))"
  by (cases k) (simp_all add: optimal_loop_0 optimal_loop_Suc)

lemma optimal_iteration_iff:
  "x \<in> set (optimal_iteration output_set ind_dict memory n current k) \<longleftrightarrow>
     (\<exists>c p r con. (c, p, r) \<in> set current \<and> con \<in> set (triu_indices (n - k)) \<and>
        step_feasible output_set ind_dict memory r con \<and>
        x = (c + step_cost output_set ind_dict r con, p @ [con], step_remaining output_set r con))"
  unfolding optimal_iteration_def Let_def
  by (force simp: optimal_try_eq split: if_splits)

lemma optimal_loop_sound:
  "(c, p, r) \<in> set (fst (optimal_loop output_set ind_dict memory input_sets k)) \<Longrightarrow>
     length p = k \<and> pairwise_feasible output_set ind_dict memory input_sets p \<and>
     c = path_cost output_set ind_dict input_sets p \<and> r = path_remaining output_set input_sets p"
proof (induction k arbitrary: c p r)
  case 0
  then show ?case by (simp add: optimal_loop_0)
next
  case (Suc k)
  from Suc.prems obtain c0 p0 r0 con where
    m: "(c0, p0, r0) \<in> set (fst (optimal_loop output_set ind_dict memory input_sets k))"
    and con: "con \<in> set (triu_indices (length input_sets - k))"
    and f: "step_feasible output_set ind_dict memory r0 con"
    and e: "c = c0 + step_cost output_set ind_dict r0 con" "p = p0 @ [con]"
       "r = step_remaining output_set r0 con"
    by (auto simp: optimal_loop_Suc optimal_iteration_iff)
  from Suc.IH [OF m] have ih: "length p0 = k"
    "pairwise_feasible output_set ind_dict memory input_sets p0"
    "c0 = path_cost output_set ind_dict input_sets p0"
    "r0 = path_remaining output_set input_sets p0" by simp_all
  from pairwise_feasible_length [OF ih(2)]
  have "length (path_remaining output_set input_sets p0) + length p0 = length input_sets"
    by blast
  then have "length r0 = length input_sets - k" unfolding ih(1) ih(4) by arith
  with con have "con \<in> set (triu_indices (length r0))" by simp
  with ih f e show ?case
    by (simp add: pairwise_feasible_snoc path_cost_snoc path_remaining_snoc)
qed

lemma optimal_loop_complete:
  "length p = k \<Longrightarrow> pairwise_feasible output_set ind_dict memory input_sets p \<Longrightarrow>
     (path_cost output_set ind_dict input_sets p, p, path_remaining output_set input_sets p)
       \<in> set (fst (optimal_loop output_set ind_dict memory input_sets k))"
proof (induction k arbitrary: p)
  case 0
  then show ?case by (simp add: optimal_loop_0)
next
  case (Suc k)
  from Suc.prems(1) obtain p0 con where p: "p = p0 @ [con]" and l: "length p0 = k"
    by (cases p rule: rev_cases) auto
  from Suc.prems(2) p have f0: "pairwise_feasible output_set ind_dict memory input_sets p0"
    and con: "con \<in> set (triu_indices (length (path_remaining output_set input_sets p0)))"
    and f: "step_feasible output_set ind_dict memory (path_remaining output_set input_sets p0) con"
    by (simp_all add: pairwise_feasible_snoc)
  from pairwise_feasible_length [OF f0] l
  have "length (path_remaining output_set input_sets p0) = length input_sets - k" by arith
  with con have con': "con \<in> set (triu_indices (length input_sets - k))" by simp
  from Suc.IH [OF l f0] con' f show ?case
    unfolding optimal_loop_Suc fst_conv optimal_iteration_iff p
    by (auto simp: path_cost_snoc path_remaining_snoc)
qed

lemma optimal_row_positions:
  "map (\<lambda>c. fst (snd c)) (concat (map (optimal_try output_set ind_dict memory (c, p, r)) comb)) =
     map (\<lambda>con. p @ [con]) (filter (step_feasible output_set ind_dict memory r) comb)"
  by (induction comb) (simp_all add: optimal_try_eq)

lemma optimal_iteration_Cons:
  "optimal_iteration output_set ind_dict memory n (cand # current) k =
     concat (map (optimal_try output_set ind_dict memory cand) (triu_indices (n - k))) @
     optimal_iteration output_set ind_dict memory n current k"
  by (simp add: optimal_iteration_def Let_def)

lemma optimal_iteration_distinct:
  "distinct (map (\<lambda>c. fst (snd c)) current) \<Longrightarrow>
     distinct (map (\<lambda>c. fst (snd c)) (optimal_iteration output_set ind_dict memory n current k))"
proof (induction current)
  case Nil
  then show ?case by (simp add: optimal_iteration_def)
next
  case (Cons cand current)
  obtain c p r where cand: "cand = (c, p, r)" by (cases cand)
  from Cons.prems cand have notin: "p \<notin> (\<lambda>c. fst (snd c)) ` set current"
    and d: "distinct (map (\<lambda>c. fst (snd c)) current)" by simp_all
  have row: "distinct (map (\<lambda>con. p @ [con])
      (filter (step_feasible output_set ind_dict memory r) (triu_indices (n - k))))"
    by (simp add: distinct_map inj_on_def distinct_triu_indices)
  have disj: "set (map (\<lambda>con. p @ [con])
        (filter (step_feasible output_set ind_dict memory r) (triu_indices (n - k)))) \<inter>
      set (map (\<lambda>c. fst (snd c)) (optimal_iteration output_set ind_dict memory n current k)) = {}"
  proof (rule ccontr)
    assume "\<not> ?thesis"
    then obtain x where x1: "x \<in> set (map (\<lambda>con. p @ [con])
        (filter (step_feasible output_set ind_dict memory r) (triu_indices (n - k))))"
      and x2: "x \<in> set (map (\<lambda>c. fst (snd c)) (optimal_iteration output_set ind_dict memory n current k))"
      by blast
    from x1 have b1: "butlast x = p" by auto
    from x2 obtain y where "y \<in> set (optimal_iteration output_set ind_dict memory n current k)"
      "x = fst (snd y)" by auto
    then obtain c' p' r' con' where "(c', p', r') \<in> set current" "x = p' @ [con']"
      by (auto simp: optimal_iteration_iff)
    then have "butlast x \<in> (\<lambda>c. fst (snd c)) ` set current" by force
    with b1 notin show False by simp
  qed
  show ?case
    unfolding cand optimal_iteration_Cons map_append optimal_row_positions distinct_append
    using row disj Cons.IH [OF d] by blast
qed

lemma optimal_loop_distinct:
  "distinct (map (\<lambda>c. fst (snd c)) (fst (optimal_loop output_set ind_dict memory input_sets k)))"
  by (induction k) (simp_all add: optimal_loop_0 optimal_loop_Suc optimal_iteration_distinct)

lemma path_optimal_cases:
  "path_optimal input_sets output_set ind_dict memory =
     (if length input_sets \<le> 1 then Inl UnboundLocalError
      else if fst (optimal_loop output_set ind_dict memory input_sets (length input_sets - 1)) = []
      then Inr [map int [0..<length input_sets]]
      else Inr (fst (snd (hd (sort_key (\<lambda>c. (fst c, fst (snd c)))
             (fst (optimal_loop output_set ind_dict memory input_sets (length input_sets - 1))))))))"
  by (auto simp: path_optimal_def optimal_loop_new)

lemma complete_length:
  assumes "pairwise_feasible output_set ind_dict memory input_sets q"
    and "path_complete output_set input_sets q"
  shows "length q = length input_sets - 1"
  using pairwise_feasible_length [OF assms(1)] assms(2) unfolding path_complete_def by arith

lemma path_optimal_best:
  assumes new: "fst (optimal_loop output_set ind_dict memory input_sets (length input_sets - 1)) \<noteq> []"
    and n: "2 \<le> length input_sets"
  defines "p \<equiv> fst (snd (hd (sort_key (\<lambda>c. (fst c, fst (snd c)))
             (fst (optimal_loop output_set ind_dict memory input_sets (length input_sets - 1))))))"
  shows "pairwise_feasible output_set ind_dict memory input_sets p"
    and "path_complete output_set input_sets p"
    and "\<And>q. pairwise_feasible output_set ind_dict memory input_sets q \<Longrightarrow>
           path_complete output_set input_sets q \<Longrightarrow>
           (path_cost output_set ind_dict input_sets p, p) \<le> (path_cost output_set ind_dict input_sets q, q)"
proof -
  let ?new = "fst (optimal_loop output_set ind_dict memory input_sets (length input_sets - 1))"
  let ?key = "\<lambda>c::int \<times> int list list \<times> 'a set list. (fst c, fst (snd c))"
  let ?b = "hd (sort_key ?key ?new)"
  from hd_sort_key_min [OF new, of ?key]
  have mem: "?b \<in> set ?new" and least: "\<forall>x\<in>set ?new. ?key ?b \<le> ?key x" by blast+
  obtain c r where b: "?b = (c, p, r)" unfolding p_def by (cases ?b) auto
  from optimal_loop_sound [OF mem [unfolded b]]
  have s: "length p = length input_sets - 1" "pairwise_feasible output_set ind_dict memory input_sets p"
    "c = path_cost output_set ind_dict input_sets p" by simp_all
  show "pairwise_feasible output_set ind_dict memory input_sets p" by (rule s(2))
  from pairwise_feasible_length [OF s(2)] s(1) n
  show "path_complete output_set input_sets p" unfolding path_complete_def by arith
  fix q
  assume q: "pairwise_feasible output_set ind_dict memory input_sets q"
    "path_complete output_set input_sets q"
  from optimal_loop_complete [OF complete_length [OF q] q(1)] least
  have "?key ?b \<le> (path_cost output_set ind_dict input_sets q, q)" by force
  then show "(path_cost output_set ind_dict input_sets p, p) \<le> (path_cost output_set ind_dict input_sets q, q)"
    unfolding b s(3) by simp
qed

section \<open>Facts about the opportunistic search\<close>

lemma opportunistic_try_eq:
  "opportunistic_try output_set ind_dict memory remaining pos =
     (if step_feasible output_set ind_dict memory remaining pos
      then [(step_key output_set ind_dict remaining pos, pos, step_remaining output_set remaining pos)]
      else [])"
  by (cases "find_contraction pos remaining output_set")
     (simp add: opportunistic_try_def step_feasible_def step_key_def step_result_def
        step_remaining_def step_removed_def step_contract_def Let_def)

lemma opportunistic_results_iff:
  "x \<in> set (opportunistic_results output_set ind_dict memory remaining) \<longleftrightarrow>
     (\<exists>pos\<in>set (triu_indices (length remaining)).
        step_feasible output_set ind_dict memory remaining pos \<and>
        x = (step_key output_set ind_dict remaining pos, pos, step_remaining output_set remaining pos))"
  unfolding opportunistic_results_def
  by (force simp: opportunistic_try_eq split: if_splits)

lemma opportunistic_results_empty:
  "opportunistic_results output_set ind_dict memory remaining = [] \<longleftrightarrow>
     (\<forall>pos\<in>set (triu_indices (length remaining)).
        \<not> step_feasible output_set ind_dict memory remaining pos)"
proof
  assume e: "opportunistic_results output_set ind_dict memory remaining = []"
  show "\<forall>pos\<in>set (triu_indices (length remaining)).
        \<not> step_feasible output_set ind_dict memory remaining pos"
  proof (intro ballI notI)
    fix pos
    assume "pos \<in> set (triu_indices (length remaining))"
      "step_feasible output_set ind_dict memory remaining pos"
    then have "(step_key output_set ind_dict remaining pos, pos, step_remaining output_set remaining pos)
        \<in> set (opportunistic_results output_set ind_dict memory remaining)"
      unfolding opportunistic_results_iff by blast
    with e show False by simp
  qed
next
  assume a: "\<forall>pos\<in>set (triu_indices (length remaining)).
        \<not> step_feasible output_set ind_dict memory remaining pos"
  show "opportunistic_results output_set ind_dict memory remaining = []"
  proof (rule ccontr)
    assume "opportunistic_results output_set ind_dict memory remaining \<noteq> []"
    then obtain x where "x \<in> set (opportunistic_results output_set ind_dict memory remaining)"
      by (cases "opportunistic_results output_set ind_dict memory remaining") auto
    then obtain pos where "pos \<in> set (triu_indices (length remaining))"
      "step_feasible output_set ind_dict memory remaining pos"
      unfolding opportunistic_results_iff by blast
    with a show False by blast
  qed
qed

lemma opportunistic_try_positions:
  "map (\<lambda>r. fst (snd r)) (concat (map (opportunistic_try output_set ind_dict memory remaining) xs)) =
     filter (step_feasible output_set ind_dict memory remaining) xs"
  by (induction xs) (simp_all add: opportunistic_try_eq)

lemma opportunistic_results_distinct:
  "distinct (map (\<lambda>r. fst (snd r)) (opportunistic_results output_set ind_dict memory remaining))"
  unfolding opportunistic_results_def opportunistic_try_positions
  by (simp add: distinct_triu_indices)

lemma opportunistic_loop_acc:
  "opportunistic_loop output_set ind_dict memory k remaining path =
     path @ opportunistic_loop output_set ind_dict memory k remaining []"
proof (induction k arbitrary: remaining path)
  case 0
  then show ?case by simp
next
  case (Suc k)
  let ?res = "opportunistic_results output_set ind_dict memory remaining"
  let ?best = "hd (sort_key (\<lambda>r. (fst r, fst (snd r))) ?res)"
  show ?case
  proof (cases "?res = []")
    case True
    then show ?thesis by simp
  next
    case False
    have l: "opportunistic_loop output_set ind_dict memory (Suc k) remaining path =
        opportunistic_loop output_set ind_dict memory k (snd (snd ?best)) (path @ [fst (snd ?best)])"
      using False by (simp add: Let_def)
    have r: "opportunistic_loop output_set ind_dict memory (Suc k) remaining [] =
        opportunistic_loop output_set ind_dict memory k (snd (snd ?best)) [fst (snd ?best)]"
      using False by (simp add: Let_def)
    have a: "opportunistic_loop output_set ind_dict memory k (snd (snd ?best)) (path @ [fst (snd ?best)]) =
        (path @ [fst (snd ?best)]) @ opportunistic_loop output_set ind_dict memory k (snd (snd ?best)) []"
      by (rule Suc.IH)
    have b: "opportunistic_loop output_set ind_dict memory k (snd (snd ?best)) [fst (snd ?best)] =
        [fst (snd ?best)] @ opportunistic_loop output_set ind_dict memory k (snd (snd ?best)) []"
      by (rule Suc.IH)
    show ?thesis unfolding l r a b by simp
  qed
qed

text \<open>The committed pair: a memory-feasible pair with a least sort tuple.\<close>

lemma opportunistic_best:
  assumes "opportunistic_results output_set ind_dict memory remaining \<noteq> []"
  defines "best \<equiv> hd (sort_key (\<lambda>r. (fst r, fst (snd r)))
             (opportunistic_results output_set ind_dict memory remaining))"
  shows "fst (snd best) \<in> set (triu_indices (length remaining))"
    and "step_feasible output_set ind_dict memory remaining (fst (snd best))"
    and "snd (snd best) = step_remaining output_set remaining (fst (snd best))"
    and "\<And>q. q \<in> set (triu_indices (length remaining)) \<Longrightarrow>
           step_feasible output_set ind_dict memory remaining q \<Longrightarrow>
           (step_key output_set ind_dict remaining (fst (snd best)), fst (snd best))
             \<le> (step_key output_set ind_dict remaining q, q)"
proof -
  let ?res = "opportunistic_results output_set ind_dict memory remaining"
  let ?key = "\<lambda>r::(int \<times> int) \<times> int list \<times> 'a set list. (fst r, fst (snd r))"
  from hd_sort_key_min [OF assms(1), of ?key]
  have mem: "best \<in> set ?res" and least: "\<forall>x\<in>set ?res. ?key best \<le> ?key x"
    unfolding best_def by blast+
  from mem obtain pos where pos: "pos \<in> set (triu_indices (length remaining))"
    "step_feasible output_set ind_dict memory remaining pos"
    "best = (step_key output_set ind_dict remaining pos, pos, step_remaining output_set remaining pos)"
    unfolding opportunistic_results_iff by blast
  from pos show "fst (snd best) \<in> set (triu_indices (length remaining))" by simp
  from pos show "step_feasible output_set ind_dict memory remaining (fst (snd best))" by simp
  from pos show "snd (snd best) = step_remaining output_set remaining (fst (snd best))" by simp
  fix q
  assume q: "q \<in> set (triu_indices (length remaining))"
    "step_feasible output_set ind_dict memory remaining q"
  then have "(step_key output_set ind_dict remaining q, q, step_remaining output_set remaining q) \<in> set ?res"
    unfolding opportunistic_results_iff by blast
  with least have "?key best \<le> (step_key output_set ind_dict remaining q, q)" by force
  with pos(3) show "(step_key output_set ind_dict remaining (fst (snd best)), fst (snd best))
             \<le> (step_key output_set ind_dict remaining q, q)" by simp
qed

text \<open>The loop, one pass unfolded, with an empty accumulator.\<close>

lemma opportunistic_loop_Suc:
  "opportunistic_loop output_set ind_dict memory (Suc k) remaining [] =
     (if opportunistic_results output_set ind_dict memory remaining = []
      then [map int [0..<length remaining]]
      else fst (snd (hd (sort_key (\<lambda>r. (fst r, fst (snd r)))
             (opportunistic_results output_set ind_dict memory remaining)))) #
           opportunistic_loop output_set ind_dict memory k
             (step_remaining output_set remaining
               (fst (snd (hd (sort_key (\<lambda>r. (fst r, fst (snd r)))
                 (opportunistic_results output_set ind_dict memory remaining)))))) [])"
proof (cases "opportunistic_results output_set ind_dict memory remaining = []")
  case True
  then show ?thesis by simp
next
  case False
  let ?best = "hd (sort_key (\<lambda>r. (fst r, fst (snd r)))
      (opportunistic_results output_set ind_dict memory remaining))"
  have "opportunistic_loop output_set ind_dict memory (Suc k) remaining [] =
      opportunistic_loop output_set ind_dict memory k (snd (snd ?best)) [fst (snd ?best)]"
    using False by (simp add: Let_def)
  also have "\<dots> = [fst (snd ?best)] @ opportunistic_loop output_set ind_dict memory k (snd (snd ?best)) []"
    by (rule opportunistic_loop_acc)
  also have "\<dots> = fst (snd ?best) # opportunistic_loop output_set ind_dict memory k (snd (snd ?best)) []"
    by (simp only: append_Cons append_Nil)
  also have "\<dots> = fst (snd ?best) # opportunistic_loop output_set ind_dict memory k
        (step_remaining output_set remaining (fst (snd ?best))) []"
    by (simp only: opportunistic_best(3) [OF False])
  finally show ?thesis unfolding if_not_P [OF False] .
qed

declare opportunistic_loop.simps(2) [simp del]

lemma lex_pair_fst_le:
  fixes a b :: "'k::order" and x y :: "'l::order"
  assumes "(a, x) \<le> (b, y)"
  shows "a \<le> b"
  using assms by (auto simp: less_eq_prod_def less_imp_le)

lemma pairwise_feasible_within:
  "pairwise_feasible output_set ind_dict memory remaining path \<Longrightarrow>
     steps_within_memory output_set ind_dict memory remaining path"
  by (induction path arbitrary: remaining) simp_all

lemma opportunistic_loop_within:
  "steps_within_memory output_set ind_dict memory remaining
     (opportunistic_loop output_set ind_dict memory k remaining [])"
proof (induction k arbitrary: remaining)
  case 0
  then show ?case by simp
next
  case (Suc k)
  show ?case
  proof (cases "opportunistic_results output_set ind_dict memory remaining = []")
    case True
    then show ?thesis by (simp add: opportunistic_loop_Suc)
  next
    case False
    from opportunistic_best(2) [OF False] Suc.IH show ?thesis
      by (simp add: opportunistic_loop_Suc False)
  qed
qed

lemma opportunistic_loop_greedy:
  "greedy_choices output_set ind_dict memory remaining
     (opportunistic_loop output_set ind_dict memory k remaining [])"
proof (induction k arbitrary: remaining)
  case 0
  then show ?case by simp
next
  case (Suc k)
  show ?case
  proof (cases "opportunistic_results output_set ind_dict memory remaining = []")
    case True
    then have "\<forall>pos\<in>set (triu_indices (length remaining)).
        \<not> step_feasible output_set ind_dict memory remaining pos"
      by (simp only: opportunistic_results_empty)
    with True show ?thesis by (simp add: opportunistic_loop_Suc)
  next
    case False
    let ?P = "fst (snd (hd (sort_key (\<lambda>r. (fst r, fst (snd r)))
                 (opportunistic_results output_set ind_dict memory remaining))))"
    have "\<forall>q\<in>set (triu_indices (length remaining)).
         step_feasible output_set ind_dict memory remaining q \<longrightarrow>
           step_key output_set ind_dict remaining ?P \<le> step_key output_set ind_dict remaining q"
    proof (intro ballI impI)
      fix q assume "q \<in> set (triu_indices (length remaining))"
        "step_feasible output_set ind_dict memory remaining q"
      from opportunistic_best(4) [OF False this]
      show "step_key output_set ind_dict remaining ?P \<le> step_key output_set ind_dict remaining q"
        by (rule lex_pair_fst_le)
    qed
    with opportunistic_best(1,2) [OF False] Suc.IH show ?thesis
      by (simp add: opportunistic_loop_Suc False)
  qed
qed

section \<open>Facts about the fallback\<close>

lemma pairwise_feasible_append:
  "pairwise_feasible output_set ind_dict memory remaining (p1 @ p2) \<longleftrightarrow>
     pairwise_feasible output_set ind_dict memory remaining p1 \<and>
     pairwise_feasible output_set ind_dict memory (path_remaining output_set remaining p1) p2"
  by (induction p1 arbitrary: remaining) auto

lemma optimal_loop_pruned:
  assumes k: "k < length input_sets - 1"
    and none: "\<forall>p. length p = k \<and> pairwise_feasible output_set ind_dict memory input_sets p \<longrightarrow>
      (\<forall>q\<in>set (triu_indices (length (path_remaining output_set input_sets p))).
         \<not> step_feasible output_set ind_dict memory (path_remaining output_set input_sets p) q)"
  shows "fst (optimal_loop output_set ind_dict memory input_sets (length input_sets - 1)) = []"
proof (rule ccontr)
  assume "fst (optimal_loop output_set ind_dict memory input_sets (length input_sets - 1)) \<noteq> []"
  then obtain c p r where
    "(c, p, r) \<in> set (fst (optimal_loop output_set ind_dict memory input_sets (length input_sets - 1)))"
    by (cases "fst (optimal_loop output_set ind_dict memory input_sets (length input_sets - 1))") auto
  from optimal_loop_sound [OF this]
  have l: "length p = length input_sets - 1"
    and f: "pairwise_feasible output_set ind_dict memory input_sets p" by simp_all
  from l k have "drop k p \<noteq> []" by simp
  then obtain con rest where d: "drop k p = con # rest" by (cases "drop k p") auto
  have p: "p = take k p @ con # rest" using d by (metis append_take_drop_id)
  from f have "pairwise_feasible output_set ind_dict memory input_sets (take k p @ con # rest)"
    using p by simp
  then have f1: "pairwise_feasible output_set ind_dict memory input_sets (take k p)"
    and f2: "pairwise_feasible output_set ind_dict memory
        (path_remaining output_set input_sets (take k p)) (con # rest)"
    unfolding pairwise_feasible_append by simp_all
  from l k have "length (take k p) = k" by simp
  with none f1 have "\<forall>q\<in>set (triu_indices (length (path_remaining output_set input_sets (take k p)))).
         \<not> step_feasible output_set ind_dict memory (path_remaining output_set input_sets (take k p)) q"
    by blast
  with f2 show False by auto
qed

lemma opportunistic_loop_fallback:
  "k < length (opportunistic_loop output_set ind_dict memory j remaining []) \<Longrightarrow>
   \<forall>q\<in>set (triu_indices (length (path_remaining output_set remaining
        (take k (opportunistic_loop output_set ind_dict memory j remaining []))))).
     \<not> step_feasible output_set ind_dict memory (path_remaining output_set remaining
        (take k (opportunistic_loop output_set ind_dict memory j remaining []))) q \<Longrightarrow>
   opportunistic_loop output_set ind_dict memory j remaining [] =
     take k (opportunistic_loop output_set ind_dict memory j remaining []) @
     [map int [0..<length (path_remaining output_set remaining
        (take k (opportunistic_loop output_set ind_dict memory j remaining [])))]]"
proof (induction j arbitrary: remaining k)
  case 0
  then show ?case by simp
next
  case (Suc j)
  let ?res = "opportunistic_results output_set ind_dict memory remaining"
  show ?case
  proof (cases "?res = []")
    case True
    then have e: "opportunistic_loop output_set ind_dict memory (Suc j) remaining [] =
        [map int [0..<length remaining]]" by (simp add: opportunistic_loop_Suc)
    with Suc.prems(1) have "k = 0" by simp
    then show ?thesis unfolding e by simp
  next
    case False
    let ?P = "fst (snd (hd (sort_key (\<lambda>r. (fst r, fst (snd r))) ?res)))"
    let ?L = "opportunistic_loop output_set ind_dict memory j (step_remaining output_set remaining ?P) []"
    have e: "opportunistic_loop output_set ind_dict memory (Suc j) remaining [] = ?P # ?L"
      using False by (simp add: opportunistic_loop_Suc)
    show ?thesis
    proof (cases k)
      case 0
      with Suc.prems(2) have "\<forall>q\<in>set (triu_indices (length remaining)).
          \<not> step_feasible output_set ind_dict memory remaining q" by simp
      then have "?res = []" by (simp only: opportunistic_results_empty)
      with False show ?thesis by simp
    next
      case (Suc k')
      from Suc.prems(1) have k': "k' < length ?L" unfolding e Suc by simp
      from Suc.prems(2) have "\<forall>q\<in>set (triu_indices (length (path_remaining output_set
            (step_remaining output_set remaining ?P) (take k' ?L)))).
          \<not> step_feasible output_set ind_dict memory (path_remaining output_set
            (step_remaining output_set remaining ?P) (take k' ?L)) q"
        unfolding e Suc by simp
      from Suc.IH [OF k' this] show ?thesis unfolding e Suc by simp
    qed
  qed
qed

lemma path_opportunistic_all_pruned:
  assumes "2 \<le> length input_sets"
    and "\<forall>q\<in>set (triu_indices (length input_sets)).
      \<not> step_feasible output_set ind_dict memory input_sets q"
  shows "path_opportunistic input_sets output_set ind_dict memory = [map int [0..<length input_sets]]"
proof -
  from assms(1) obtain j where j: "length input_sets - 1 = Suc j"
    by (cases "length input_sets - 1") auto
  from assms(2) have "opportunistic_results output_set ind_dict memory input_sets = []"
    by (simp only: opportunistic_results_empty)
  then show ?thesis unfolding path_opportunistic_def j by (simp add: opportunistic_loop_Suc)
qed

lemma path_optimal_all_pruned:
  assumes "2 \<le> length input_sets"
    and "\<forall>q\<in>set (triu_indices (length input_sets)).
      \<not> step_feasible output_set ind_dict memory input_sets q"
  shows "path_optimal input_sets output_set ind_dict memory = Inr [map int [0..<length input_sets]]"
proof -
  have "fst (optimal_loop output_set ind_dict memory input_sets (length input_sets - 1)) = []"
  proof (rule optimal_loop_pruned [of 0])
    show "0 < length input_sets - 1" using assms(1) by simp
    show "\<forall>p. length p = 0 \<and> pairwise_feasible output_set ind_dict memory input_sets p \<longrightarrow>
      (\<forall>q\<in>set (triu_indices (length (path_remaining output_set input_sets p))).
         \<not> step_feasible output_set ind_dict memory (path_remaining output_set input_sets p) q)"
      using assms(2) by auto
  qed
  with assms(1) show ?thesis by (simp add: path_optimal_cases)
qed

section \<open>Facts about plan building\<close>

lemma contract_plan_unfold:
  "contract_plan path_arg input_list output_subscript dimension_dict memory =
     (if \<not> set output_subscript \<subseteq> \<Union>(set (map set input_list)) then Inl KeyError
      else case compute_path path_arg input_list (map set input_list) (set output_subscript)
                  dimension_dict
                  (case memory of
                     None \<Rightarrow> compute_out_size input_list output_subscript dimension_dict
                   | Some m \<Rightarrow> m)
                  (compute_out_size input_list output_subscript dimension_dict) of
             Inl e \<Rightarrow> Inl e
           | Inr path \<Rightarrow>
               (case materialize path input_list output_subscript dimension_dict of
                  Inl e \<Rightarrow> Inl e
                | Inr st \<Rightarrow> Inr (path, st)))"
  by (simp add: contract_plan_def Let_def)









lemma materialize_two:
  "\<exists>st. materialize [Group [0, 1]] [x, y] output_subscript dimension_dict = Inr st"
  by (simp add: materialize_def materialize_step_def pop_def Let_def split: prod.splits)

lemma compute_path_unknown:
  assumes "name \<noteq> ''opportunistic''" "name \<noteq> ''optimal''"
  shows "compute_path (PathName name) input_list input_sets output_set dimension_dict memory_arg bound =
     (if length input_list = 1 then Inr [Scalar 0]
      else if length input_list = 2 then Inr [Group [0, 1]]
      else Inl KeyError)"
  using assms by (simp add: compute_path_def)

lemma card_unselected:
  assumes "distinct ps" "list_all (\<lambda>x. 0 \<le> x \<and> x < int n) ps"
  shows "card {i. i < n \<and> int i \<notin> set ps} + length ps = n"
proof -
  have sub: "nat ` set ps \<subseteq> {..<n}" using assms(2) by (auto simp: list_all_iff)
  have inj: "inj_on nat (set ps)"
  proof (rule inj_onI)
    fix x y assume "x \<in> set ps" "y \<in> set ps" "nat x = nat y"
    moreover from this assms(2) have "0 \<le> x" "0 \<le> y" by (auto simp: list_all_iff)
    ultimately show "x = y" by simp
  qed
  have c: "card (nat ` set ps) = length ps"
    using inj assms(1) by (simp add: card_image distinct_card)
  have "{i. i < n \<and> int i \<notin> set ps} = {..<n} - nat ` set ps"
  proof (intro set_eqI iffI)
    fix i assume "i \<in> {i. i < n \<and> int i \<notin> set ps}"
    then have i: "i < n" "int i \<notin> set ps" by simp_all
    have "i \<notin> nat ` set ps"
    proof
      assume "i \<in> nat ` set ps"
      then obtain x where "x \<in> set ps" "i = nat x" by blast
      with assms(2) have "int i = x" by (auto simp: list_all_iff)
      with \<open>x \<in> set ps\<close> i(2) show False by simp
    qed
    with i(1) show "i \<in> {..<n} - nat ` set ps" by simp
  next
    fix i assume "i \<in> {..<n} - nat ` set ps"
    then have i: "i < n" "i \<notin> nat ` set ps" by simp_all
    have "int i \<notin> set ps"
    proof
      assume "int i \<in> set ps"
      then have "nat (int i) \<in> nat ` set ps" by (rule imageI)
      with i(2) show False by simp
    qed
    with i(1) show "i \<in> {i. i < n \<and> int i \<notin> set ps}" by simp
  qed
  then have "card {i. i < n \<and> int i \<notin> set ps} = n - length ps"
    using sub c by (simp add: card_Diff_subset)
  moreover have "length ps \<le> n" using sub c card_mono [of "{..<n}" "nat ` set ps"] by simp
  ultimately show ?thesis by simp
qed

lemma length_step_remaining_valid:
  assumes "distinct ps" "list_all (\<lambda>x. 0 \<le> x \<and> x < int (length sets)) ps"
  shows "length (step_remaining output_set sets ps) + length ps = length sets + 1"
  using card_unselected [OF assms]
  by (simp add: step_remaining_eq length_nths)







section \<open>Facts about the shape of the returned paths\<close>

lemma triu_pair_valid:
  assumes "con \<in> set (triu_indices n)"
  shows "distinct con" "list_all (\<lambda>x. 0 \<le> x \<and> x < int n) con" "length con = 2" "2 \<le> n"
  using assms by (auto simp: triu_indices_iff)

lemma range_valid:
  "distinct (map int [0..<n])" "list_all (\<lambda>x. 0 \<le> x \<and> x < int n) (map int [0..<n])"
  by (auto simp: distinct_map inj_on_def list_all_iff)

lemma search_steps_valid:
  "search_steps n p \<Longrightarrow> valid_path n (map Group p)"
proof (induction p arbitrary: n)
  case Nil
  then show ?case by simp
next
  case (Cons con p)
  from Cons.prems consider
    (pair) "con \<in> set (triu_indices n)" "search_steps (n - 1) p"
    | (all) "con = map int [0..<n]" "p = []" "2 \<le> n" by auto
  then show ?case
  proof cases
    case pair
    from triu_pair_valid(3,4) [OF pair(1)] have "n - length con + 1 = n - 1" by simp
    with triu_pair_valid(1,2) [OF pair(1)] Cons.IH [OF pair(2)] show ?thesis by simp
  next
    case all
    with range_valid [of n] show ?thesis by simp
  qed
qed

lemma search_steps_nonempty: "search_steps n p \<Longrightarrow> 2 \<le> n \<Longrightarrow> p \<noteq> []"
  by (cases p) auto

lemma search_steps_complete:
  "search_steps (length sets) p \<Longrightarrow> length (path_remaining output_set sets p) = 1"
proof (induction p arbitrary: sets)
  case Nil
  then show ?case by simp
next
  case (Cons con p)
  from Cons.prems consider
    (pair) "con \<in> set (triu_indices (length sets))" "search_steps (length sets - 1) p"
    | (all) "con = map int [0..<length sets]" "p = []" "2 \<le> length sets" by auto
  then show ?case
  proof cases
    case pair
    from length_step_remaining [OF pair(1), of output_set] pair(2)
    have "search_steps (length (step_remaining output_set sets con)) p" by simp
    from Cons.IH [OF this] show ?thesis by simp
  next
    case all
    have "length (step_remaining output_set sets (map int [0..<length sets])) +
        length (map int [0..<length sets]) = length sets + 1"
      by (rule length_step_remaining_valid) (rule range_valid)+
    with all show ?thesis by simp
  qed
qed

lemma pairwise_complete_steps:
  "pairwise_feasible output_set ind_dict memory sets p \<Longrightarrow>
   length (path_remaining output_set sets p) = 1 \<Longrightarrow> search_steps (length sets) p"
proof (induction p arbitrary: sets)
  case Nil
  then show ?case by simp
next
  case (Cons con p)
  from Cons.prems(1) have c: "con \<in> set (triu_indices (length sets))"
    and f: "pairwise_feasible output_set ind_dict memory (step_remaining output_set sets con) p"
    by simp_all
  from Cons.prems(2) have "length (path_remaining output_set (step_remaining output_set sets con) p) = 1"
    by simp
  from Cons.IH [OF f this] length_step_remaining [OF c, of output_set] c
  show ?case by simp
qed

lemma path_optimal_steps:
  assumes "path_optimal input_sets output_set ind_dict memory = Inr p"
  shows "search_steps (length input_sets) p"
proof -
  let ?new = "fst (optimal_loop output_set ind_dict memory input_sets (length input_sets - 1))"
  from assms have n: "2 \<le> length input_sets"
    by (auto simp: path_optimal_cases split: if_splits)
  show ?thesis
  proof (cases "?new = []")
    case True
    with assms n have "p = [map int [0..<length input_sets]]"
      by (auto simp: path_optimal_cases split: if_splits)
    with n show ?thesis by simp
  next
    case False
    with assms n have p: "p = fst (snd (hd (sort_key (\<lambda>c. (fst c, fst (snd c))) ?new)))"
      by (auto simp: path_optimal_cases split: if_splits)
    from path_optimal_best(1,2) [OF False n] show ?thesis
      unfolding p path_complete_def by (rule pairwise_complete_steps)
  qed
qed

lemma opportunistic_loop_steps:
  "length sets = Suc j \<Longrightarrow>
     search_steps (length sets) (opportunistic_loop output_set ind_dict memory j sets [])"
proof (induction j arbitrary: sets)
  case 0
  then show ?case by simp
next
  case (Suc j)
  show ?case
  proof (cases "opportunistic_results output_set ind_dict memory sets = []")
    case True
    with Suc.prems show ?thesis by (simp add: opportunistic_loop_Suc)
  next
    case False
    let ?P = "fst (snd (hd (sort_key (\<lambda>r. (fst r, fst (snd r)))
                 (opportunistic_results output_set ind_dict memory sets))))"
    from opportunistic_best(1) [OF False] have c: "?P \<in> set (triu_indices (length sets))" .
    from length_step_remaining [OF c, of output_set] Suc.prems
    have l: "length (step_remaining output_set sets ?P) = Suc j" by simp
    from Suc.IH [OF l] l Suc.prems
    have "search_steps (length sets - 1)
        (opportunistic_loop output_set ind_dict memory j (step_remaining output_set sets ?P) [])"
      by simp
    with c False show ?thesis by (simp add: opportunistic_loop_Suc)
  qed
qed

lemma path_opportunistic_steps:
  "input_sets \<noteq> [] \<Longrightarrow>
     search_steps (length input_sets) (path_opportunistic input_sets output_set ind_dict memory)"
  unfolding path_opportunistic_def
  by (rule opportunistic_loop_steps) (cases input_sets, simp_all)

lemma compute_path_steps:
  assumes "compute_path (PathName name) input_list input_sets output_set dimension_dict memory_arg bound
      = Inr path"
    and "length input_sets = length input_list" "input_list \<noteq> []" "length input_list \<noteq> 1"
  shows "\<exists>p. path = map Group p \<and> search_steps (length input_sets) p"
proof (cases "length input_list = 2")
  case True
  with assms have 1: "path = map Group [[0, 1]]" by (simp add: compute_path_def)
  have "search_steps 2 [[0, 1]]" by code_simp
  with True assms(2) have 2: "search_steps (length input_sets) [[0, 1]]" by (simp only:)
  from 1 2 show ?thesis by (intro exI [of _ "[[0, 1]]"] conjI)
next
  case False
  from assms(2,3) have ne: "input_sets \<noteq> []" by auto
  show ?thesis
  proof (cases "name = ''opportunistic''")
    case True
    with assms False have "path = map Group (path_opportunistic input_sets output_set dimension_dict
        (min memory_arg bound))" by (auto simp: compute_path_def Let_def)
    with path_opportunistic_steps [OF ne] show ?thesis by blast
  next
    case no: False
    with assms False obtain p where "path_optimal input_sets output_set dimension_dict memory_arg = Inr p"
      "path = map Group p"
      by (auto simp: compute_path_def split: if_splits sum.splits)
    with path_optimal_steps show ?thesis by blast
  qed
qed

section \<open>Claims\<close>

text \<open>
  Claim C2.  For every collection of positions, every sequence of input label sets and every
  output set, \<open>_find_contraction\<close> returns: the contracted labels, equal to the union of the
  selected descriptors; the surviving labels, equal to the output set united with the
  non-selected descriptors and then intersected with the contracted labels; the removed labels,
  equal to the contracted labels minus the surviving ones, so that surviving and removed labels
  are disjoint and together make up the contracted labels; and the updated remaining sequence,
  which is the non-selected descriptors in their original relative order followed by the
  surviving labels.
\<close>

theorem find_contraction_spec:
  "(case find_contraction positions input_sets output_set of
      (new_result, remaining, idx_removed, idx_contract) \<Rightarrow>
        idx_contract = \<Union>(set (nths input_sets {i. int i \<in> set positions})) \<and>
        new_result = (output_set \<union> \<Union>(set (nths input_sets {i. int i \<notin> set positions})))
                       \<inter> idx_contract \<and>
        idx_removed = idx_contract - new_result \<and>
        new_result \<inter> idx_removed = {} \<and>
        new_result \<union> idx_removed = idx_contract \<and>
        remaining = nths input_sets {i. int i \<notin> set positions} @ [new_result])"
  by (auto simp add: find_contraction_eq)

text \<open>
  Claim C1.  For every sequence of operand descriptors, output set, size map and memory limit, the
  path returned by \<open>_path_optimal\<close> has a cumulative cost no greater than that of any
  memory-feasible complete pairwise path over the same inputs.  The cost of a step is the size
  of its contracted labels, doubled when its removed labels are non-empty; costs add up over
  the steps; among the paths of minimal cost the lexicographically smallest sequence of position
  pairs is returned.  The returned path is itself such a path, and with two or more operands
  the search does return a path (with fewer, reading \<open>new\<close> raises).
\<close>

theorem path_optimal_minimal:
  "(2 \<le> length input_sets \<longrightarrow> (\<exists>p. path_optimal input_sets output_set ind_dict memory = Inr p)) \<and>
   (\<forall>p q. path_optimal input_sets output_set ind_dict memory = Inr p \<and>
          pairwise_feasible output_set ind_dict memory input_sets q \<and>
          path_complete output_set input_sets q \<longrightarrow>
          pairwise_feasible output_set ind_dict memory input_sets p \<and>
          path_complete output_set input_sets p \<and>
          path_cost output_set ind_dict input_sets p \<le> path_cost output_set ind_dict input_sets q \<and>
          (path_cost output_set ind_dict input_sets p = path_cost output_set ind_dict input_sets q
             \<longrightarrow> p \<le> q))"
proof (intro conjI allI impI)
  assume "2 \<le> length input_sets"
  then show "\<exists>p. path_optimal input_sets output_set ind_dict memory = Inr p"
    by (simp add: path_optimal_cases)
next
  fix p q
  assume a: "path_optimal input_sets output_set ind_dict memory = Inr p \<and>
          pairwise_feasible output_set ind_dict memory input_sets q \<and>
          path_complete output_set input_sets q"
  let ?new = "fst (optimal_loop output_set ind_dict memory input_sets (length input_sets - 1))"
  from a have q: "pairwise_feasible output_set ind_dict memory input_sets q"
    "path_complete output_set input_sets q" by simp_all
  from a have n: "2 \<le> length input_sets"
    by (auto simp: path_optimal_cases split: if_splits)
  from optimal_loop_complete [OF complete_length [OF q] q(1)]
  have new: "?new \<noteq> []" by auto
  with a n have p: "p = fst (snd (hd (sort_key (\<lambda>c. (fst c, fst (snd c))) ?new)))"
    by (auto simp: path_optimal_cases split: if_splits)
  show "pairwise_feasible output_set ind_dict memory input_sets p"
    unfolding p by (rule path_optimal_best(1) [OF new n])
  show "path_complete output_set input_sets p"
    unfolding p by (rule path_optimal_best(2) [OF new n])
  have le: "(path_cost output_set ind_dict input_sets p, p) \<le> (path_cost output_set ind_dict input_sets q, q)"
    unfolding p by (rule path_optimal_best(3) [OF new n q])
  then show "path_cost output_set ind_dict input_sets p \<le> path_cost output_set ind_dict input_sets q"
    by (auto simp: less_eq_prod_def)
  assume "path_cost output_set ind_dict input_sets p = path_cost output_set ind_dict input_sets q"
  with le show "p \<le> q" by (auto simp: less_eq_prod_def)
qed

theorem path_optimal_minimal_witness:
  "2 \<le> length [{1::nat, 2}, {2, 3}, {3, 4}] \<and>
   path_optimal [{1::nat, 2}, {2, 3}, {3, 4}] {1, 4} (\<lambda>x. int x + 1) 100 = Inr [[0, 1], [0, 1]] \<and>
   pairwise_feasible {1, 4} (\<lambda>x. int x + 1) 100 [{1::nat, 2}, {2, 3}, {3, 4}] [[1, 2], [0, 1]] \<and>
   path_complete {1, 4} [{1::nat, 2}, {2, 3}, {3, 4}] [[1, 2], [0, 1]] \<and>
   path_cost {1, 4} (\<lambda>x. int x + 1) [{1::nat, 2}, {2, 3}, {3, 4}] [[0, 1], [0, 1]]
     \<le> path_cost {1, 4} (\<lambda>x. int x + 1) [{1::nat, 2}, {2, 3}, {3, 4}] [[1, 2], [0, 1]]"
proof -
  have a: "path_optimal [{1::nat, 2}, {2, 3}, {3, 4}] {1, 4} (\<lambda>x. int x + 1) 100 = Inr [[0, 1], [0, 1]]"
    by code_simp
  have b: "pairwise_feasible {1, 4} (\<lambda>x. int x + 1) 100 [{1::nat, 2}, {2, 3}, {3, 4}] [[1, 2], [0, 1]]"
    by code_simp
  have c: "path_complete {1, 4} [{1::nat, 2}, {2, 3}, {3, 4}] [[1, 2], [0, 1]]"
    by code_simp
  have d: "2 \<le> length [{1::nat, 2}, {2, 3}, {3, 4}]" by simp
  from path_optimal_minimal [of "[{1::nat, 2}, {2, 3}, {3, 4}]" "{1, 4}" "\<lambda>x. int x + 1" 100] a b c d
  show ?thesis by blast
qed

text \<open>
  Claim C3.  For every input (operand descriptors, output set, size map, memory limit), every
  step of the path chosen by either search satisfies: the size of the surviving labels of the
  step is at most the memory limit, unless the step is the fallback that contracts the whole
  remaining sequence.
\<close>

theorem search_steps_within_memory:
  "(\<forall>p. path_optimal input_sets output_set ind_dict memory = Inr p \<longrightarrow>
        steps_within_memory output_set ind_dict memory input_sets p) \<and>
   steps_within_memory output_set ind_dict memory input_sets
     (path_opportunistic input_sets output_set ind_dict memory)"
proof (intro conjI allI impI)
  fix p
  assume r: "path_optimal input_sets output_set ind_dict memory = Inr p"
  let ?new = "fst (optimal_loop output_set ind_dict memory input_sets (length input_sets - 1))"
  from r have n: "2 \<le> length input_sets"
    by (auto simp: path_optimal_cases split: if_splits)
  show "steps_within_memory output_set ind_dict memory input_sets p"
  proof (cases "?new = []")
    case True
    with r n have "p = [map int [0..<length input_sets]]"
      by (auto simp: path_optimal_cases split: if_splits)
    then show ?thesis by simp
  next
    case False
    with r n have "p = fst (snd (hd (sort_key (\<lambda>c. (fst c, fst (snd c))) ?new)))"
      by (auto simp: path_optimal_cases split: if_splits)
    with path_optimal_best(1) [OF False n] show ?thesis
      by (simp add: pairwise_feasible_within)
  qed
next
  show "steps_within_memory output_set ind_dict memory input_sets
     (path_opportunistic input_sets output_set ind_dict memory)"
    unfolding path_opportunistic_def by (rule opportunistic_loop_within)
qed

theorem search_steps_within_memory_witness:
  "path_optimal [{1::nat, 2}, {2, 3}, {3, 4}] {1, 4} (\<lambda>x. int x + 1) 100 = Inr [[0, 1], [0, 1]] \<and>
   steps_within_memory {1, 4} (\<lambda>x. int x + 1) 100 [{1::nat, 2}, {2, 3}, {3, 4}] [[0, 1], [0, 1]]"
proof -
  have a: "path_optimal [{1::nat, 2}, {2, 3}, {3, 4}] {1, 4} (\<lambda>x. int x + 1) 100 = Inr [[0, 1], [0, 1]]"
    by code_simp
  from search_steps_within_memory [of "[{1::nat, 2}, {2, 3}, {3, 4}]" "{1, 4}" "\<lambda>x. int x + 1" 100] a
  show ?thesis by blast
qed

text \<open>
  Claim C4.  At every step of the opportunistic search, among all memory-feasible unordered
  pairs of positions of the current remaining sequence, the committed pair is minimal under
  the key (minus the size of the removed labels, size of the contracted labels): it removes
  the largest element volume, ties being broken by the lowest contraction cost.
\<close>

theorem path_opportunistic_greedy:
  "greedy_choices output_set ind_dict memory input_sets
     (path_opportunistic input_sets output_set ind_dict memory)"
  unfolding path_opportunistic_def by (rule opportunistic_loop_greedy)

theorem path_opportunistic_greedy_witness:
  "path_opportunistic [{1::nat, 2}, {2, 3}, {3, 4}] {1, 4} (\<lambda>x. int x + 1) 100 = [[1, 2], [0, 1]] \<and>
   [0, 1] \<in> set (triu_indices (length [{1::nat, 2}, {2, 3}, {3, 4}])) \<and>
   step_feasible {1, 4} (\<lambda>x. int x + 1) 100 [{1::nat, 2}, {2, 3}, {3, 4}] [0, 1] \<and>
   step_feasible {1, 4} (\<lambda>x. int x + 1) 100 [{1::nat, 2}, {2, 3}, {3, 4}] [1, 2] \<and>
   step_key {1, 4} (\<lambda>x. int x + 1) [{1::nat, 2}, {2, 3}, {3, 4}] [1, 2]
     \<le> step_key {1, 4} (\<lambda>x. int x + 1) [{1::nat, 2}, {2, 3}, {3, 4}] [0, 1]"
proof -
  have a: "path_opportunistic [{1::nat, 2}, {2, 3}, {3, 4}] {1, 4} (\<lambda>x. int x + 1) 100 = [[1, 2], [0, 1]]"
    by code_simp
  have b: "[0, 1] \<in> set (triu_indices (length [{1::nat, 2}, {2, 3}, {3, 4}]))"
    by code_simp
  have c: "step_feasible {1, 4} (\<lambda>x. int x + 1) 100 [{1::nat, 2}, {2, 3}, {3, 4}] [0, 1]"
    by code_simp
  from path_opportunistic_greedy [of "{1, 4}" "\<lambda>x. int x + 1" 100 "[{1::nat, 2}, {2, 3}, {3, 4}]"]
  have "greedy_choices {1, 4} (\<lambda>x. int x + 1) 100 [{1::nat, 2}, {2, 3}, {3, 4}] [[1, 2], [0, 1]]"
    unfolding a .
  then have "\<forall>q\<in>set (triu_indices (length [{1::nat, 2}, {2, 3}, {3, 4}])).
         step_feasible {1, 4} (\<lambda>x. int x + 1) 100 [{1::nat, 2}, {2, 3}, {3, 4}] q \<longrightarrow>
           [1, 2] \<in> set (triu_indices (length [{1::nat, 2}, {2, 3}, {3, 4}])) \<and>
           step_feasible {1, 4} (\<lambda>x. int x + 1) 100 [{1::nat, 2}, {2, 3}, {3, 4}] [1, 2] \<and>
           step_key {1, 4} (\<lambda>x. int x + 1) [{1::nat, 2}, {2, 3}, {3, 4}] [1, 2]
             \<le> step_key {1, 4} (\<lambda>x. int x + 1) [{1::nat, 2}, {2, 3}, {3, 4}] q"
    unfolding greedy_choices.simps by (rule conjunct1)
  with a b c show ?thesis by blast
qed

text \<open>
  Claim C6.  For every input in which every candidate pair at some step exceeds the memory
  limit (in particular when the memory limit is below the size of every pairwise
  intermediate), both searches produce a path ending in a single fallback step that contracts
  the entire current remaining sequence at once, and this is a normal result, not an error.
  For the optimal search the step is a level of the search (all candidates of that level have
  only infeasible pairs) and the path is the single tuple of all operands; for the
  opportunistic search the step is one of its own steps, and the path is the steps committed
  before it followed by the tuple of all positions of the sequence they leave.
\<close>

theorem search_fallback:
  "((\<exists>k<length input_sets - 1.
       \<forall>p. length p = k \<and> pairwise_feasible output_set ind_dict memory input_sets p \<longrightarrow>
         (\<forall>q\<in>set (triu_indices (length (path_remaining output_set input_sets p))).
            \<not> step_feasible output_set ind_dict memory (path_remaining output_set input_sets p) q)) \<longrightarrow>
      path_optimal input_sets output_set ind_dict memory = Inr [map int [0..<length input_sets]]) \<and>
   (\<forall>k<length (path_opportunistic input_sets output_set ind_dict memory).
      (\<forall>q\<in>set (triu_indices (length (path_remaining output_set input_sets
            (take k (path_opportunistic input_sets output_set ind_dict memory))))).
         \<not> step_feasible output_set ind_dict memory (path_remaining output_set input_sets
            (take k (path_opportunistic input_sets output_set ind_dict memory))) q) \<longrightarrow>
      path_opportunistic input_sets output_set ind_dict memory =
        take k (path_opportunistic input_sets output_set ind_dict memory) @
        [map int [0..<length (path_remaining output_set input_sets
            (take k (path_opportunistic input_sets output_set ind_dict memory)))]]) \<and>
   (2 \<le> length input_sets \<and>
    (\<forall>q\<in>set (triu_indices (length input_sets)).
       \<not> step_feasible output_set ind_dict memory input_sets q) \<longrightarrow>
      path_optimal input_sets output_set ind_dict memory = Inr [map int [0..<length input_sets]] \<and>
      path_opportunistic input_sets output_set ind_dict memory = [map int [0..<length input_sets]])"
proof (intro conjI impI allI)
  assume "\<exists>k<length input_sets - 1.
       \<forall>p. length p = k \<and> pairwise_feasible output_set ind_dict memory input_sets p \<longrightarrow>
         (\<forall>q\<in>set (triu_indices (length (path_remaining output_set input_sets p))).
            \<not> step_feasible output_set ind_dict memory (path_remaining output_set input_sets p) q)"
  then obtain k where k: "k < length input_sets - 1"
    and none: "\<forall>p. length p = k \<and> pairwise_feasible output_set ind_dict memory input_sets p \<longrightarrow>
         (\<forall>q\<in>set (triu_indices (length (path_remaining output_set input_sets p))).
            \<not> step_feasible output_set ind_dict memory (path_remaining output_set input_sets p) q)"
    by blast
  from optimal_loop_pruned [OF k none] k
  show "path_optimal input_sets output_set ind_dict memory = Inr [map int [0..<length input_sets]]"
    by (simp add: path_optimal_cases)
next
  fix k
  assume "k < length (path_opportunistic input_sets output_set ind_dict memory)"
    and "\<forall>q\<in>set (triu_indices (length (path_remaining output_set input_sets
            (take k (path_opportunistic input_sets output_set ind_dict memory))))).
         \<not> step_feasible output_set ind_dict memory (path_remaining output_set input_sets
            (take k (path_opportunistic input_sets output_set ind_dict memory))) q"
  then show "path_opportunistic input_sets output_set ind_dict memory =
        take k (path_opportunistic input_sets output_set ind_dict memory) @
        [map int [0..<length (path_remaining output_set input_sets
            (take k (path_opportunistic input_sets output_set ind_dict memory)))]]"
    unfolding path_opportunistic_def by (rule opportunistic_loop_fallback)
next
  assume a: "2 \<le> length input_sets \<and>
    (\<forall>q\<in>set (triu_indices (length input_sets)).
       \<not> step_feasible output_set ind_dict memory input_sets q)"
  then show "path_optimal input_sets output_set ind_dict memory = Inr [map int [0..<length input_sets]]"
    by (intro path_optimal_all_pruned) simp_all
  from a show "path_opportunistic input_sets output_set ind_dict memory = [map int [0..<length input_sets]]"
    by (intro path_opportunistic_all_pruned) simp_all
qed

theorem search_fallback_witness:
  "(1 < length [{1::nat, 2}, {2}, {3, 4}, {5, 6}] - 1 \<and>
    path_optimal [{1::nat, 2}, {2}, {3, 4}, {5, 6}] {1, 3, 4, 5, 6} (\<lambda>_. 2) 3 = Inr [[0, 1, 2, 3]]) \<and>
   (path_opportunistic [{1::nat, 2}, {2}, {3, 4}, {5, 6}] {1, 3, 4, 5, 6} (\<lambda>_. 2) 3 = [[0, 1], [0, 1, 2]] \<and>
    path_opportunistic [{1::nat, 2}, {2}, {3, 4}, {5, 6}] {1, 3, 4, 5, 6} (\<lambda>_. 2) 3 =
      [[0, 1]] @ [map int [0..<length (path_remaining {1, 3, 4, 5, 6} [{1::nat, 2}, {2}, {3, 4}, {5, 6}] [[0, 1]])]]) \<and>
   (2 \<le> length [{1::nat, 2}, {2, 3}, {3, 4}] \<and>
    path_optimal [{1::nat, 2}, {2, 3}, {3, 4}] {1, 4} (\<lambda>x. int x + 1) 1 =
      Inr [map int [0..<length [{1::nat, 2}, {2, 3}, {3, 4}]]] \<and>
    path_opportunistic [{1::nat, 2}, {2, 3}, {3, 4}] {1, 4} (\<lambda>x. int x + 1) 1 =
      [map int [0..<length [{1::nat, 2}, {2, 3}, {3, 4}]]])"
proof -
  let ?I = "[{1::nat, 2}, {2}, {3, 4}, {5, 6}]"
  let ?O = "{1::nat, 3, 4, 5, 6}"
  let ?d = "\<lambda>_::nat. 2::int"
  let ?J = "[{1::nat, 2}, {2, 3}, {3, 4}]"
  let ?e = "\<lambda>x::nat. int x + 1"
  have l: "1 < length ?I - 1" by simp
  have h1: "\<forall>con\<in>set (triu_indices (length ?I)). step_feasible ?O ?d 3 ?I con \<longrightarrow> con = [0, 1]"
    by code_simp
  have h2: "\<forall>q\<in>set (triu_indices (length (path_remaining ?O ?I [[0, 1]]))).
       \<not> step_feasible ?O ?d 3 (path_remaining ?O ?I [[0, 1]]) q"
    by code_simp
  have h: "\<forall>p. length p = 1 \<and> pairwise_feasible ?O ?d 3 ?I p \<longrightarrow>
        (\<forall>q\<in>set (triu_indices (length (path_remaining ?O ?I p))).
           \<not> step_feasible ?O ?d 3 (path_remaining ?O ?I p) q)"
  proof (intro allI impI)
    fix p
    assume a: "length p = 1 \<and> pairwise_feasible ?O ?d 3 ?I p"
    then obtain con where p: "p = [con]" by (cases p) auto
    with a h1 have "con = [0, 1]" by simp
    with p h2 show "\<forall>q\<in>set (triu_indices (length (path_remaining ?O ?I p))).
           \<not> step_feasible ?O ?d 3 (path_remaining ?O ?I p) q" by simp
  qed
  have o: "path_opportunistic ?I ?O ?d 3 = [[0, 1], [0, 1, 2]]" by code_simp
  have k: "1 < length (path_opportunistic ?I ?O ?d 3)" unfolding o by simp
  have t: "take 1 (path_opportunistic ?I ?O ?d 3) = [[0, 1]]" unfolding o by simp
  have n: "2 \<le> length ?J" by simp
  have j: "\<forall>q\<in>set (triu_indices (length ?J)). \<not> step_feasible {1, 4} ?e 1 ?J q"
    by code_simp
  note thm1 = search_fallback [of ?I ?O ?d 3]
  note thm2 = search_fallback [of ?J "{1, 4}" ?e 1]
  from thm1 l h have A: "path_optimal ?I ?O ?d 3 = Inr [map int [0..<length ?I]]" by blast
  have A': "map int [0..<length ?I] = [0, 1, 2, 3]" by code_simp
  from thm1 k h2 have B: "path_opportunistic ?I ?O ?d 3 =
      [[0, 1]] @ [map int [0..<length (path_remaining ?O ?I [[0, 1]])]]"
    unfolding t [symmetric] by blast
  from thm2 n j have C: "path_optimal ?J {1, 4} ?e 1 = Inr [map int [0..<length ?J]] \<and>
      path_opportunistic ?J {1, 4} ?e 1 = [map int [0..<length ?J]]" by blast
  from l A [unfolded A'] o B n C show ?thesis by blast
qed

text \<open>
  Claim C7 (as stated: a strategy name other than \<open>opportunistic\<close> or \<open>optimal\<close> makes the
  call fail with an error, regardless of the number of operands).  The code tests the number
  of operands before the name, so with two operands an unknown name is accepted.  Amended:
  with a strategy name other than \<open>opportunistic\<close> or \<open>optimal\<close>, the call fails with
  \<open>KeyError\<close> whenever the number of operands is neither one nor two; with exactly two
  operands the name is not examined, the path is \<open>[(0, 1)]\<close> and the plan is built without
  error.
\<close>

theorem unknown_strategy_error:
  "name \<noteq> ''opportunistic'' \<and> name \<noteq> ''optimal'' \<longrightarrow>
     (length input_list \<noteq> 1 \<and> length input_list \<noteq> 2 \<longrightarrow>
        contract_plan (PathName name) input_list output_subscript dimension_dict memory
          = Inl KeyError) \<and>
     (length input_list = 2 \<and> set output_subscript \<subseteq> \<Union>(set (map set input_list)) \<longrightarrow>
        (\<exists>st. contract_plan (PathName name) input_list output_subscript dimension_dict memory
          = Inr ([Group [0, 1]], st)))"
proof (intro impI conjI)
  assume n: "name \<noteq> ''opportunistic'' \<and> name \<noteq> ''optimal''"
  assume "length input_list \<noteq> 1 \<and> length input_list \<noteq> 2"
  with n show "contract_plan (PathName name) input_list output_subscript dimension_dict memory
      = Inl KeyError"
    by (simp add: contract_plan_unfold compute_path_unknown)
next
  assume n: "name \<noteq> ''opportunistic'' \<and> name \<noteq> ''optimal''"
  assume a: "length input_list = 2 \<and> set output_subscript \<subseteq> \<Union>(set (map set input_list))"
  then obtain x y where xy: "input_list = [x, y]"
    by (cases input_list; cases "tl input_list") auto
  from materialize_two [of x y output_subscript dimension_dict] obtain st
    where "materialize [Group [0, 1]] [x, y] output_subscript dimension_dict = Inr st" by blast
  with n a xy
  have "contract_plan (PathName name) input_list output_subscript dimension_dict memory
      = Inr ([Group [0, 1]], st)"
    by (simp add: contract_plan_unfold compute_path_unknown)
  then show "\<exists>st. contract_plan (PathName name) input_list output_subscript dimension_dict memory
      = Inr ([Group [0, 1]], st)" ..
qed

theorem unknown_strategy_error_witness:
  "contract_plan (PathName ''bogus'') [''ab'', ''bc'', ''cd''] ''ad'' (\<lambda>_. 10) None = Inl KeyError \<and>
   (\<exists>st. contract_plan (PathName ''bogus'') [''ab'', ''bc''] ''ac'' (\<lambda>_. 10) None
      = Inr ([Group [0, 1]], st))"
proof -
  have a: "''bogus'' \<noteq> ''opportunistic'' \<and> ''bogus'' \<noteq> ''optimal''" by simp
  have b: "length [''ab'', ''bc'', ''cd''] \<noteq> 1 \<and> length [''ab'', ''bc'', ''cd''] \<noteq> 2" by simp
  have c: "length [''ab'', ''bc''] = 2 \<and> set ''ac'' \<subseteq> \<Union>(set (map set [''ab'', ''bc'']))"
    by simp
  from unknown_strategy_error [of "''bogus''" "[''ab'', ''bc'', ''cd'']" "''ad''" "\<lambda>_. 10" None] a b
  have 1: "contract_plan (PathName ''bogus'') [''ab'', ''bc'', ''cd''] ''ad'' (\<lambda>_. 10) None = Inl KeyError"
    by blast
  from unknown_strategy_error [of "''bogus''" "[''ab'', ''bc'']" "''ac''" "\<lambda>_. 10" None] a c
  have 2: "\<exists>st. contract_plan (PathName ''bogus'') [''ab'', ''bc''] ''ac'' (\<lambda>_. 10) None
      = Inr ([Group [0, 1]], st)"
    by blast
  from 1 2 show ?thesis by blast
qed

theorem unknown_strategy_counterexample:
  "contract_plan (PathName ''bogus'') [''ab'', ''bc''] ''ac'' (\<lambda>_. 10) None =
     Inr ([Group [0, 1]], [set ''ac''], [''ac''],
          [\<lparr>c_inds = [1, 0], c_gemm = False, c_einsum_str = ''bc,ab->ac'', c_remaining = [''ac'']\<rparr>])"
  by code_simp







end
